theory Spec2Isabelle
  imports Main "HOL-Library.FSet" "HOL-Library.Finite_Map" "HOL-Library.Sublist"
begin

section \<open>The IPv4 hash cracker of \<open>unhash_ip.py\<close>\<close>

text \<open>
  The program searches the dotted-quad strings \<open>a.b.c.d\<close> for preimages of a fixed table
  of SHA-1 digests. The digest itself comes from Python's \<open>hashlib\<close>, not from this
  repository: every definition below takes it as the parameter \<open>sha1\<close>, the function
  \<open>ip \<mapsto> hashlib.sha1(ip.encode('utf-8')).hexdigest()\<close>, and every theorem holds for
  whatever function that is. Python's integers are \<open>int\<close>, its strings \<open>string\<close>, its
  dicts finite maps, its sets finite sets.
\<close>

subsection \<open>Formatting integers: the f-string \<open>f"{a}.{b}.{c}.{d}"\<close>\<close>

definition digit_char :: "nat \<Rightarrow> char" where
  "digit_char n = ''0123456789'' ! (n mod 10)"

fun str_nat :: "nat \<Rightarrow> string" where
  "str_nat n = (if n < 10 then [digit_char n] else str_nat (n div 10) @ [digit_char (n mod 10)])"

declare str_nat.simps [simp del]

definition str_int :: "int \<Rightarrow> string" where
  "str_int i = (if i < 0 then CHR ''-'' # str_nat (nat (- i)) else str_nat (nat i))"

definition ip_str :: "int \<Rightarrow> int \<Rightarrow> int \<Rightarrow> int \<Rightarrow> string" where
  "ip_str a b c d = str_int a @ ''.'' @ str_int b @ ''.'' @ str_int c @ ''.'' @ str_int d"

subsection \<open>Ranges and loops\<close>

text \<open>\<open>range(start, stop)\<close>: the integers from \<open>start\<close> up to \<open>stop - 1\<close>, none when
  \<open>stop \<le> start\<close>.\<close>

definition py_range :: "int \<Rightarrow> int \<Rightarrow> int list" where
  "py_range start stop = [start..stop - 1]"

text \<open>\<open>range(start, stop, step)\<close> for a positive step, the only kind the program uses
  (\<open>range(0, 256, 16)\<close>).\<close>

function range_step :: "int \<Rightarrow> int \<Rightarrow> int \<Rightarrow> int list" where
  "range_step start stop step =
     (if 0 < step \<and> start < stop then start # range_step (start + step) stop step else [])"
  by pat_completeness auto
termination
  by (relation "measure (\<lambda>(start, stop, step). nat (stop - start))") auto

declare range_step.simps [simp del]

text \<open>A \<open>for\<close> loop whose body may execute \<open>return\<close>: the body yields \<open>Inl\<close> of the
  state when it returned (the loop ends there, and so does every enclosing loop) and
  \<open>Inr\<close> of the state when it fell through to the next iteration.\<close>

fun for_loop :: "'a list \<Rightarrow> ('a \<Rightarrow> 's \<Rightarrow> 's + 's) \<Rightarrow> 's \<Rightarrow> 's + 's" where
  "for_loop [] body s = Inr s"
| "for_loop (x # xs) body s =
     (case body x s of Inl r \<Rightarrow> Inl r | Inr s' \<Rightarrow> for_loop xs body s')"

subsection \<open>The range scanner \<open>crack_range\<close>\<close>

text \<open>
  The state of one call: the local dict \<open>results\<close>, the candidates whose digest has been
  computed so far, in order (\<open>hashed\<close>, one entry for each evaluation of line 32), and
  the lines printed so far.
\<close>

record scan =
  results :: "(string, string) fmap"
  hashed :: "string list"
  printed :: "string list"

definition scan_init :: scan where
  "scan_init = \<lparr>results = fmempty, hashed = [], printed = []\<rparr>"

text \<open>\<open>desc = target_dict.get(h, "Unknown") if target_dict else h\<close>: the parameter
  defaults to \<open>None\<close>, and an empty dict is as false as \<open>None\<close>.\<close>

definition describe :: "(string, string) fmap option \<Rightarrow> string \<Rightarrow> string" where
  "describe target_dict h =
     (case target_dict of
        None \<Rightarrow> h
      | Some td \<Rightarrow>
          if td = fmempty then h
          else (case fmlookup td h of Some v \<Rightarrow> v | None \<Rightarrow> ''Unknown''))"

definition found_line :: "string \<Rightarrow> string \<Rightarrow> string \<Rightarrow> string" where
  "found_line ip h desc = ''  FOUND: '' @ ip @ '' -> '' @ h @ '' ('' @ desc @ '')''"

definition completed_line :: "int \<Rightarrow> string" where
  "completed_line a = ''  Completed range '' @ str_int a @ ''.x.x.x''"

text \<open>Lines 32 to 38, the body of the innermost loop for the candidate \<open>ip\<close>.\<close>

definition visit ::
  "(string \<Rightarrow> string) \<Rightarrow> string fset \<Rightarrow> (string, string) fmap option \<Rightarrow>
   string \<Rightarrow> scan \<Rightarrow> scan + scan" where
  "visit sha1 targets target_dict ip s =
     (let h = sha1 ip;
          s1 = s\<lparr>hashed := hashed s @ [ip]\<rparr>
      in if h |\<in>| targets then
           let s2 = s1\<lparr>results := fmupd h ip (results s1)\<rparr>;
               desc = describe target_dict h;
               s3 = s2\<lparr>printed := printed s2 @ [found_line ip h desc]\<rparr>
           in if fcard (fmdom (results s3)) = fcard targets then Inl s3 else Inr s3
         else Inr s1)"

text \<open>Lines 28 to 39, the body of the outermost loop for the first octet \<open>a\<close>.\<close>

definition octet_body ::
  "(string \<Rightarrow> string) \<Rightarrow> string fset \<Rightarrow> (string, string) fmap option \<Rightarrow>
   int \<Rightarrow> scan \<Rightarrow> scan + scan" where
  "octet_body sha1 targets target_dict a s =
     (case for_loop (py_range 0 256) (\<lambda>b.
             for_loop (py_range 0 256) (\<lambda>c.
               for_loop (py_range 0 256) (\<lambda>d.
                 visit sha1 targets target_dict (ip_str a b c d)))) s of
        Inl r \<Rightarrow> Inl r
      | Inr s' \<Rightarrow> Inr (s'\<lparr>printed := printed s' @ [completed_line a]\<rparr>))"

text \<open>\<open>crack_range\<close> gives the final state; the value the Python function returns is its
  \<open>results\<close> field, on both \<open>return\<close> statements.\<close>

definition crack_range ::
  "(string \<Rightarrow> string) \<Rightarrow> int \<Rightarrow> int \<Rightarrow> string fset \<Rightarrow> (string, string) fmap option \<Rightarrow> scan"
  where
  "crack_range sha1 start_a end_a targets target_dict =
     (case for_loop (py_range start_a end_a) (octet_body sha1 targets target_dict) scan_init of
        Inl r \<Rightarrow> r
      | Inr r \<Rightarrow> r)"

text \<open>The candidate enumerator: the strings the four nested loops of lines 27 to 31
  build, in the order they build them, when nothing returns early.\<close>

definition candidates_of :: "int \<Rightarrow> string list" where
  "candidates_of a =
     concat (map (\<lambda>b. concat (map (\<lambda>c. map (\<lambda>d. ip_str a b c d) (py_range 0 256))
                                   (py_range 0 256)))
                 (py_range 0 256))"

definition candidates :: "int \<Rightarrow> int \<Rightarrow> string list" where
  "candidates start_a end_a = concat (map candidates_of (py_range start_a end_a))"

subsection \<open>Auxiliary notions for the statements\<close>

text \<open>The state a loop ended in, whether by \<open>return\<close> or by running out.\<close>

definition sum_out :: "'s + 's \<Rightarrow> 's" where
  "sum_out r = (case r of Inl x \<Rightarrow> x | Inr x \<Rightarrow> x)"

text \<open>Two scan states agree on everything but the printed lines.\<close>

definition same_core :: "scan \<Rightarrow> scan \<Rightarrow> bool" where
  "same_core s t \<longleftrightarrow> results s = results t \<and> hashed s = hashed t"

text \<open>What lines 33 and 34 do to the local dict for one candidate, and the dict they
  leave after a list of candidates has gone through them.\<close>

definition record_match ::
  "(string \<Rightarrow> string) \<Rightarrow> string fset \<Rightarrow> string \<Rightarrow> (string, string) fmap \<Rightarrow> (string, string) fmap"
  where
  "record_match sha1 T ip m = (if sha1 ip |\<in>| T then fmupd (sha1 ip) ip m else m)"

definition recorded ::
  "(string \<Rightarrow> string) \<Rightarrow> string fset \<Rightarrow> string list \<Rightarrow> (string, string) fmap" where
  "recorded sha1 T cs = fold (record_match sha1 T) cs fmempty"

text \<open>The octet quadruples behind the candidates, first octet outermost.\<close>

definition quads :: "int \<Rightarrow> int \<Rightarrow> (int \<times> int \<times> int \<times> int) list" where
  "quads s e = List.product (py_range s e)
     (List.product (py_range 0 256) (List.product (py_range 0 256) (py_range 0 256)))"

subsection \<open>The run: \<open>main\<close>\<close>

text \<open>The target table, a dict literal with eight distinct keys, in the order of the
  source (the order \<open>items()\<close> iterates in), and the ranges of phase 1.\<close>

definition TARGET_HASHES :: "(string \<times> string) list" where
  "TARGET_HASHES =
     [(''977b6967a5717fef69c2772af31accceaa53cc73'', ''Device IP''),
      (''f2bc41c32c7265b49cfa857f24b09529a549641f'', ''Default Gateway/DHCP''),
      (''cf764b40a447e2eebf923d1c3a4b362b1a17f5ca'', ''PublicIP field''),
      (''0377858af0fb16e14b0676f189bf0466a98a08eb'', ''Adapter 1 IP''),
      (''4d417d8be419a399a654fcbc028b9fba413f33cc'', ''Adapter 2 IP''),
      (''29c4d1aff3d55774cdd2ade49e0de895072235fd'', ''Adapter 3 IP''),
      (''6df3b7bad2e09da372d2e1e69eafd67539736549'', ''Adapter 4 IP''),
      (''df8de336853f75094de716688a3e1d6ad9839d95'', ''Adapter 5 IP'')]"

definition common_ranges :: "(int \<times> int) list" where
  "common_ranges =
     [(10, 11), (172, 173), (192, 193), (1, 2), (8, 9), (20, 21), (40, 41), (52, 53),
      (13, 14), (104, 105), (157, 158), (168, 169), (207, 208)]"

text \<open>The two variables \<open>main\<close> keeps across both phases: the set \<open>remaining\<close> of
  digests still pending and the dict \<open>all_results\<close>.\<close>

record agg =
  remaining :: "string fset"
  all_results :: "(string, string) fmap"

text \<open>Lines 68 and 69.\<close>

definition agg_init :: "(string \<times> string) list \<Rightarrow> agg" where
  "agg_init table = \<lparr>remaining = fset_of_list (map fst table), all_results = fmempty\<rparr>"

text \<open>Lines 76 and 77, and again lines 96 and 97: \<open>all_results.update(results)\<close>, where
  an entry of \<open>results\<close> replaces an entry of \<open>all_results\<close> with the same key, and
  \<open>remaining -= set(results.keys())\<close>.\<close>

definition merge_results :: "(string, string) fmap \<Rightarrow> agg \<Rightarrow> agg" where
  "merge_results res g =
     \<lparr>remaining = remaining g |-| fmdom res, all_results = all_results g ++\<^sub>f res\<rparr>"

text \<open>Lines 71 to 77: the listed ranges one after the other, each scanned for what is
  pending at that moment, until nothing is pending.\<close>

fun phase1 :: "(string \<Rightarrow> string) \<Rightarrow> (int \<times> int) list \<Rightarrow> agg \<Rightarrow> agg" where
  "phase1 sha1 [] g = g"
| "phase1 sha1 ((start, stop) # rest) g =
     (if remaining g = {||} then g
      else phase1 sha1 rest
             (merge_results (results (crack_range sha1 start stop (remaining g) None)) g))"

text \<open>
  Phase 2. Lines 90 to 92 submit one work item for each chunk of sixteen first octets.
  Every item holds its chunk and a reference to the one set \<open>remaining\<close>, not a copy of
  it: what a worker is given is the value the set has when the process pool serialises
  the item for it, which is after \<open>submit\<close> has returned and may be after line 97 has
  removed digests from the set. The run of the pool is therefore a sequence of events.
  \<open>Sent c\<close>: the item of chunk \<open>c\<close> is serialised, and its worker starts on the set as
  it is then. \<open>Done c\<close>: the future of chunk \<open>c\<close> is the next one \<open>as_completed\<close>
  yields, and lines 95 to 100 run on its result. The sequence is a parameter. An event
  that cannot happen (an item sent twice or never submitted; a future yielded before its
  item was sent, or twice, or after the loop was left) changes nothing. The pool sends
  its items in the order of submission; the model admits every order, that one included.
\<close>

definition chunks :: "(int \<times> int) list" where
  "chunks = map (\<lambda>start. (start, min (start + 16) 256)) (range_step 0 256 16)"

datatype event = Sent "int \<times> int" | Done "int \<times> int"

text \<open>The state of phase 2: the two variables of \<open>main\<close>, the items still queued, what
  each started worker received, the futures already yielded, and whether the loop of
  line 94 has been left by \<open>break\<close>.\<close>

record pool =
  aggregate :: agg
  queued :: "(int \<times> int) list"
  received :: "((int \<times> int) \<times> string fset) list"
  yielded :: "(int \<times> int) list"
  left_loop :: bool

definition submit_all :: "agg \<Rightarrow> pool" where
  "submit_all g =
     \<lparr>aggregate = g, queued = chunks, received = [], yielded = [], left_loop = False\<rparr>"

fun pool_step :: "(string \<Rightarrow> string) \<Rightarrow> event \<Rightarrow> pool \<Rightarrow> pool" where
  "pool_step sha1 (Sent c) p =
     (if c \<in> set (queued p)
      then p\<lparr>queued := removeAll c (queued p),
             received := received p @ [(c, remaining (aggregate p))]\<rparr>
      else p)"
| "pool_step sha1 (Done c) p =
     (case map_of (received p) c of
        None \<Rightarrow> p
      | Some snapshot \<Rightarrow>
          if left_loop p \<or> c \<in> set (yielded p) then p
          else
            let g' = merge_results
                       (results (crack_range sha1 (fst c) (snd c) snapshot None)) (aggregate p)
            in p\<lparr>aggregate := g', yielded := yielded p @ [c],
                 left_loop := (remaining g' = {||})\<rparr>)"

definition pool_run :: "(string \<Rightarrow> string) \<Rightarrow> event list \<Rightarrow> agg \<Rightarrow> pool" where
  "pool_run sha1 events g = fold (pool_step sha1) events (submit_all g)"

text \<open>Line 79: phase 2 only runs when something is still pending.\<close>

definition phase2 :: "(string \<Rightarrow> string) \<Rightarrow> event list \<Rightarrow> agg \<Rightarrow> agg" where
  "phase2 sha1 events g =
     (if remaining g \<noteq> {||} then aggregate (pool_run sha1 events g) else g)"

text \<open>Lines 105 to 109, the final report. \<open>all_results[h]\<close> raises \<open>KeyError\<close> on a
  missing key; the report is an error or the list of its lines.\<close>

datatype error = KeyError string

definition getitem :: "(string, string) fmap \<Rightarrow> string \<Rightarrow> error + string" where
  "getitem d k = (case fmlookup d k of None \<Rightarrow> Inl (KeyError k) | Some v \<Rightarrow> Inr v)"

fun report :: "(string \<times> string) list \<Rightarrow> (string, string) fmap \<Rightarrow> error + string list" where
  "report [] res = Inr []"
| "report ((h, desc) # rest) res =
     (if h |\<in>| fmdom res then
        (case getitem res h of
           Inl e \<Rightarrow> Inl e
         | Inr ip \<Rightarrow>
             (case report rest res of
                Inl e \<Rightarrow> Inl e
              | Inr ls \<Rightarrow> Inr ((''  '' @ desc @ '': '' @ ip) # ls)))
      else
        (case report rest res of
           Inl e \<Rightarrow> Inl e
         | Inr ls \<Rightarrow> Inr ((''  '' @ desc @ '': NOT FOUND (hash: '' @ h @ '')'') # ls)))"

text \<open>The state at the end of both phases, and the report \<open>main\<close> prints from it. The
  progress lines of \<open>main\<close> (and those its workers print, which interleave as the
  scheduler has it) are left out.\<close>

definition run ::
  "(string \<Rightarrow> string) \<Rightarrow> (string \<times> string) list \<Rightarrow> (int \<times> int) list \<Rightarrow> event list \<Rightarrow> agg"
  where
  "run sha1 table ranges events = phase2 sha1 events (phase1 sha1 ranges (agg_init table))"

definition main :: "(string \<Rightarrow> string) \<Rightarrow> event list \<Rightarrow> error + string list" where
  "main sha1 events =
     report TARGET_HASHES (all_results (run sha1 TARGET_HASHES common_ranges events))"

text \<open>The first octets a chunk covers, and the invariant of the two variables with
  respect to the target table.\<close>

definition octets_of :: "int \<times> int \<Rightarrow> int set" where
  "octets_of c = {fst c..<snd c}"

definition partitioned :: "agg \<Rightarrow> (string \<times> string) list \<Rightarrow> bool" where
  "partitioned g table \<longleftrightarrow>
     remaining g |\<inter>| fmdom (all_results g) = {||}
     \<and> remaining g |\<union>| fmdom (all_results g) = fset_of_list (map fst table)"

subsection \<open>An example run of both phases\<close>

text \<open>
  A run with the digests of \<open>0.0.0.1\<close> and \<open>16.0.0.1\<close> as targets (the identity stands
  for a digest without collisions). Neither address lies in a range of phase 1, so both
  are pending when phase 2 submits its sixteen items. The items are serialised in the
  order they were submitted: the first three before any result has arrived, the fourth
  after the result of \<open>[0,16)\<close> has been merged, the fifth after that of \<open>[16,32)\<close>.
\<close>

definition two_targets :: "(string \<times> string) list" where
  "two_targets = [(''0.0.0.1'', ''first''), (''16.0.0.1'', ''second'')]"

definition late_start :: "event list" where
  "late_start = [Sent (0, 16), Sent (16, 32), Sent (32, 48), Done (0, 16), Sent (48, 64),
                 Done (16, 32), Sent (64, 80)]"

section \<open>Facts about the formatting\<close>

lemma digit_char_lt10:
  "n < 10 \<Longrightarrow> digit_char n = ''0123456789'' ! n"
  by (simp add: digit_char_def)

lemma digit_char_cases:
  "digit_char n \<in> set ''0123456789''"
  unfolding digit_char_def by (rule nth_mem) simp

lemma digit_char_inj:
  assumes "n < 10" "m < 10" "digit_char n = digit_char m"
  shows "n = m"
proof -
  have d: "distinct ''0123456789''" by simp
  have "''0123456789'' ! n = ''0123456789'' ! m"
    using assms by (simp add: digit_char_lt10)
  with d assms(1,2) show ?thesis
    by (simp add: nth_eq_iff_index_eq)
qed

lemma str_nat_digits: "set (str_nat n) \<subseteq> set ''0123456789''"
proof (induction n rule: str_nat.induct)
  case (1 n)
  show ?case
  proof (cases "n < 10")
    case True
    then show ?thesis using digit_char_cases[of n] by (subst str_nat.simps) simp
  next
    case False
    then show ?thesis using 1 digit_char_cases[of "n mod 10"]
      by (subst str_nat.simps) simp
  qed
qed

lemma str_nat_nonempty: "str_nat n \<noteq> []"
  by (subst str_nat.simps) simp

lemma str_nat_inj: "str_nat n = str_nat m \<Longrightarrow> n = m"
proof (induction n arbitrary: m rule: str_nat.induct)
  case (1 n)
  show ?case
  proof (cases "n < 10")
    case n: True
    show ?thesis
    proof (cases "m < 10")
      case True
      with n 1(2) show ?thesis
        by (auto simp: str_nat.simps[of n] str_nat.simps[of m] intro: digit_char_inj)
    next
      case False
      with n 1(2) str_nat_nonempty[of "m div 10"] show ?thesis
        by (auto simp: str_nat.simps[of n] str_nat.simps[of m])
    qed
  next
    case n: False
    show ?thesis
    proof (cases "m < 10")
      case True
      with n 1(2) str_nat_nonempty[of "n div 10"] show ?thesis
        by (auto simp: str_nat.simps[of n] str_nat.simps[of m])
    next
      case False
      with n 1(2) have e: "str_nat (n div 10) = str_nat (m div 10)"
        and d: "digit_char (n mod 10) = digit_char (m mod 10)"
        by (auto simp: str_nat.simps[of n] str_nat.simps[of m])
      from 1(1)[OF n e] have "n div 10 = m div 10" .
      moreover from d have "n mod 10 = m mod 10"
        by (intro digit_char_inj) simp_all
      ultimately show ?thesis
        by (metis div_mult_mod_eq)
    qed
  qed
qed

lemma str_nat_no_dot: "CHR ''.'' \<notin> set (str_nat n)"
proof
  assume "CHR ''.'' \<in> set (str_nat n)"
  then have "CHR ''.'' \<in> set ''0123456789''"
    using str_nat_digits[of n] by (rule set_mp[rotated])
  then show False by simp
qed

lemma str_nat_no_minus: "CHR ''-'' \<notin> set (str_nat n)"
proof
  assume "CHR ''-'' \<in> set (str_nat n)"
  then have "CHR ''-'' \<in> set ''0123456789''"
    using str_nat_digits[of n] by (rule set_mp[rotated])
  then show False by simp
qed

lemma str_int_no_dot: "CHR ''.'' \<notin> set (str_int i)"
  by (simp add: str_int_def str_nat_no_dot)

lemma str_int_inj: "str_int i = str_int j \<Longrightarrow> i = j"
proof -
  assume e: "str_int i = str_int j"
  have nm: "CHR ''-'' \<notin> set (str_nat k)" for k
    by (rule str_nat_no_minus)
  have hd: "hd (str_nat k) \<noteq> CHR ''-''" for k
    using nm[of k] str_nat_nonempty[of k] by (cases "str_nat k") auto
  show ?thesis
  proof (cases "i < 0")
    case i: True
    show ?thesis
    proof (cases "j < 0")
      case True
      with i e have "nat (- i) = nat (- j)" by (auto simp: str_int_def dest: str_nat_inj)
      with i True show ?thesis by simp
    next
      case False
      with i e hd[of "nat j"] show ?thesis by (auto simp: str_int_def) (metis list.sel(1))
    qed
  next
    case i: False
    show ?thesis
    proof (cases "j < 0")
      case True
      with i e hd[of "nat i"] show ?thesis by (auto simp: str_int_def)
    next
      case False
      with i e have "nat i = nat j" by (auto simp: str_int_def dest: str_nat_inj)
      with i False show ?thesis by simp
    qed
  qed
qed

lemma sep_split:
  "x \<notin> set xs \<Longrightarrow> x \<notin> set ys \<Longrightarrow> xs @ x # r = ys @ x # r' \<Longrightarrow> xs = ys \<and> r = r'"
proof (induction xs arbitrary: ys)
  case Nil
  then show ?case by (cases ys) auto
next
  case (Cons y xs)
  then show ?case by (cases ys) auto
qed

lemma dot_split:
  assumes "CHR ''.'' \<notin> set xs" "CHR ''.'' \<notin> set ys" "xs @ CHR ''.'' # r = ys @ CHR ''.'' # r'"
  shows "xs = ys \<and> r = r'"
  using assms by (rule sep_split)

lemma ip_str_inj:
  assumes "ip_str a b c d = ip_str a' b' c' d'"
  shows "a = a' \<and> b = b' \<and> c = c' \<and> d = d'"
proof -
  from assms have 1: "str_int a @ CHR ''.'' # (str_int b @ CHR ''.'' # (str_int c @ CHR ''.'' # str_int d))
     = str_int a' @ CHR ''.'' # (str_int b' @ CHR ''.'' # (str_int c' @ CHR ''.'' # str_int d'))"
    by (simp add: ip_str_def)
  from dot_split[OF str_int_no_dot str_int_no_dot 1]
  have a: "str_int a = str_int a'" and 2: "str_int b @ CHR ''.'' # (str_int c @ CHR ''.'' # str_int d)
     = str_int b' @ CHR ''.'' # (str_int c' @ CHR ''.'' # str_int d')" by auto
  from dot_split[OF str_int_no_dot str_int_no_dot 2]
  have b: "str_int b = str_int b'" and 3: "str_int c @ CHR ''.'' # str_int d
     = str_int c' @ CHR ''.'' # str_int d'" by auto
  from dot_split[OF str_int_no_dot str_int_no_dot 3]
  have c: "str_int c = str_int c'" and d: "str_int d = str_int d'" by auto
  from a b c d show ?thesis by (auto dest: str_int_inj)
qed

lemma str_nat_small: "n < 10 \<Longrightarrow> str_nat n = [digit_char n]"
  by (subst str_nat.simps) simp

lemma str_nat_big: "10 \<le> n \<Longrightarrow> str_nat n = str_nat (n div 10) @ [digit_char (n mod 10)]"
  by (subst str_nat.simps) simp

section \<open>The nested loops as one loop over the candidates\<close>

lemma sum_out_simps [simp]: "sum_out (Inl x) = x" "sum_out (Inr x) = x"
  by (simp_all add: sum_out_def)

lemma for_loop_append:
  "for_loop (xs @ ys) f s = (case for_loop xs f s of Inl r \<Rightarrow> Inl r | Inr s' \<Rightarrow> for_loop ys f s')"
  by (induction xs arbitrary: s) (auto split: sum.splits)

lemma for_loop_concat:
  "for_loop (concat (map g xs)) f s = for_loop xs (\<lambda>x. for_loop (g x) f) s"
  by (induction xs arbitrary: s) (auto simp: for_loop_append split: sum.splits)

lemma for_loop_map:
  "for_loop (map h xs) f s = for_loop xs (\<lambda>x. f (h x)) s"
  by (induction xs arbitrary: s) (auto split: sum.splits)

lemma for_loop_concat_fun:
  "for_loop (concat (map g xs)) f = for_loop xs (\<lambda>x. for_loop (g x) f)"
  by (rule ext) (rule for_loop_concat)

lemma for_loop_map_fun:
  "for_loop (map h xs) f = for_loop xs (\<lambda>x. f (h x))"
  by (rule ext) (rule for_loop_map)

lemma for_loop_candidates_of:
  "for_loop (candidates_of a) V s =
   for_loop (py_range 0 256) (\<lambda>b. for_loop (py_range 0 256) (\<lambda>c.
     for_loop (py_range 0 256) (\<lambda>d. V (ip_str a b c d)))) s"
  by (simp add: candidates_of_def for_loop_concat_fun for_loop_map_fun)

lemma visit_same_core:
  "same_core s t \<Longrightarrow>
   rel_sum same_core same_core (visit sha1 T td ip s) (visit sha1 T td' ip t)"
  by (simp add: visit_def same_core_def Let_def)

lemma for_loop_same_core:
  assumes "\<And>x s t. same_core s t \<Longrightarrow> rel_sum same_core same_core (f x s) (g x t)"
      and "same_core s t"
  shows "rel_sum same_core same_core (for_loop xs f s) (for_loop xs g t)"
  using assms(2)
proof (induction xs arbitrary: s t)
  case Nil
  then show ?case by simp
next
  case (Cons x xs)
  from assms(1)[OF Cons.prems, of x] show ?case
    by (cases "f x s"; cases "g x t") (auto intro: Cons.IH)
qed

lemma octet_body_same_core:
  assumes "same_core s t"
  shows "rel_sum same_core same_core
           (octet_body sha1 T td a s) (for_loop (candidates_of a) (visit sha1 T td) t)"
proof -
  let ?inner = "\<lambda>u. for_loop (py_range 0 256) (\<lambda>b. for_loop (py_range 0 256) (\<lambda>c.
     for_loop (py_range 0 256) (\<lambda>d. visit sha1 T td (ip_str a b c d)))) u"
  have "rel_sum same_core same_core (?inner s) (?inner t)"
    by (intro for_loop_same_core visit_same_core assms)
  then show ?thesis
    unfolding octet_body_def for_loop_candidates_of
    by (cases "?inner s"; cases "?inner t") (auto simp: same_core_def)
qed

lemma crack_range_flat:
  "same_core (crack_range sha1 start_a end_a T td)
             (sum_out (for_loop (candidates start_a end_a) (visit sha1 T td) scan_init))"
proof -
  have "rel_sum same_core same_core
          (for_loop (py_range start_a end_a) (octet_body sha1 T td) scan_init)
          (for_loop (py_range start_a end_a)
             (\<lambda>a. for_loop (candidates_of a) (visit sha1 T td)) scan_init)"
    by (intro for_loop_same_core octet_body_same_core) (simp_all add: same_core_def)
  then show ?thesis
    unfolding crack_range_def candidates_def for_loop_concat
    by (auto simp: rel_sum.simps)
qed

section \<open>The loop over a list of candidates\<close>

lemma visit_results:
  "results (sum_out (visit sha1 T td ip s)) = record_match sha1 T ip (results s)"
  by (simp add: visit_def record_match_def Let_def)

lemma visit_hashed:
  "hashed (sum_out (visit sha1 T td ip s)) = hashed s @ [ip]"
  by (simp add: visit_def Let_def)

lemma visit_isl:
  "isl (visit sha1 T td ip s) \<longleftrightarrow>
   sha1 ip |\<in>| T \<and> fcard (fmdom (record_match sha1 T ip (results s))) = fcard T"
  by (simp add: visit_def record_match_def Let_def)

lemma flat_scan:
  assumes "fcard (fmdom (results s)) \<noteq> fcard T"
  shows "\<exists>p. prefix p cs
           \<and> hashed (sum_out (for_loop cs (visit sha1 T td) s)) = hashed s @ p
           \<and> results (sum_out (for_loop cs (visit sha1 T td) s))
               = fold (record_match sha1 T) p (results s)
           \<and> (\<forall>n<length p.
                 fcard (fmdom (fold (record_match sha1 T) (take n cs) (results s))) \<noteq> fcard T)
           \<and> (p \<noteq> cs \<longrightarrow>
                 fcard (fmdom (fold (record_match sha1 T) p (results s))) = fcard T)"
  using assms
proof (induction cs arbitrary: s)
  case Nil
  then show ?case by simp
next
  case (Cons c cs)
  let ?V = "visit sha1 T td"
  let ?rm = "record_match sha1 T"
  show ?case
  proof (cases "?V c s")
    case (Inl r)
    then have "isl (?V c s)" by simp
    then have cnt: "fcard (fmdom (?rm c (results s))) = fcard T"
      by (simp add: visit_isl)
    have r: "results r = ?rm c (results s)" "hashed r = hashed s @ [c]"
      using visit_results[of sha1 T td c s] visit_hashed[of sha1 T td c s] Inl by simp_all
    show ?thesis
      apply (rule exI[of _ "[c]"])
      using Inl r cnt Cons.prems by simp
  next
    case (Inr s')
    then have nisl: "\<not> isl (?V c s)" by simp
    have s': "results s' = ?rm c (results s)" "hashed s' = hashed s @ [c]"
      using visit_results[of sha1 T td c s] visit_hashed[of sha1 T td c s] Inr by simp_all
    have ne: "fcard (fmdom (results s')) \<noteq> fcard T"
    proof (cases "sha1 c |\<in>| T")
      case True
      with nisl show ?thesis by (simp add: visit_isl s')
    next
      case False
      with Cons.prems show ?thesis by (simp add: s' record_match_def)
    qed
    from Cons.IH[OF ne] obtain p where p: "prefix p cs"
      "hashed (sum_out (for_loop cs ?V s')) = hashed s' @ p"
      "results (sum_out (for_loop cs ?V s')) = fold ?rm p (results s')"
      "\<forall>n<length p. fcard (fmdom (fold ?rm (take n cs) (results s'))) \<noteq> fcard T"
      "p \<noteq> cs \<longrightarrow> fcard (fmdom (fold ?rm p (results s'))) = fcard T"
      by blast
    have all: "\<forall>n<length (c # p).
                 fcard (fmdom (fold ?rm (take n (c # cs)) (results s))) \<noteq> fcard T"
    proof (intro allI impI)
      fix n assume n: "n < length (c # p)"
      show "fcard (fmdom (fold ?rm (take n (c # cs)) (results s))) \<noteq> fcard T"
      proof (cases n)
        case 0
        with Cons.prems show ?thesis by simp
      next
        case (Suc k)
        with n p(4) show ?thesis by (simp add: s')
      qed
    qed
    show ?thesis
      apply (rule exI[of _ "c # p"])
      using Inr p(1,2,3,5) all by (simp add: s')
  qed
qed

lemma flat_empty_targets:
  "for_loop cs (visit sha1 {||} td) s = Inr (s\<lparr>hashed := hashed s @ cs\<rparr>)"
  by (induction cs arbitrary: s) (simp_all add: visit_def)

lemma flat_nomatch:
  "\<forall>c\<in>set cs. sha1 c |\<notin>| T \<Longrightarrow>
   for_loop cs (visit sha1 T td) s = Inr (s\<lparr>hashed := hashed s @ cs\<rparr>)"
  by (induction cs arbitrary: s) (simp_all add: visit_def)

lemma flat_single:
  assumes "results s = fmempty" "x \<in> set cs" "\<forall>y\<in>set cs. sha1 y = sha1 x \<longrightarrow> y = x"
  shows "results (sum_out (for_loop cs (visit sha1 {|sha1 x|} td) s)) = fmupd (sha1 x) x fmempty"
  using assms
proof (induction cs arbitrary: s)
  case Nil
  then show ?case by simp
next
  case (Cons c cs)
  show ?case
  proof (cases "c = x")
    case True
    with Cons.prems(1) show ?thesis
      by (simp add: visit_def Let_def fcard_finsert_if)
  next
    case False
    with Cons.prems have ne: "sha1 c \<noteq> sha1 x" and x: "x \<in> set cs"
      and u: "\<forall>y\<in>set cs. sha1 y = sha1 x \<longrightarrow> y = x" by auto
    have v: "visit sha1 {|sha1 x|} td c s = Inr (s\<lparr>hashed := hashed s @ [c]\<rparr>)"
      using ne by (simp add: visit_def)
    show ?thesis
      using Cons.IH[OF _ x u, of "s\<lparr>hashed := hashed s @ [c]\<rparr>"] Cons.prems(1)
      by (simp add: v)
  qed
qed

lemma flat_sound:
  assumes "fmlookup (results (sum_out (for_loop cs (visit sha1 T td) s))) h = Some ip"
  shows "fmlookup (results s) h = Some ip \<or> (ip \<in> set cs \<and> sha1 ip = h \<and> h |\<in>| T)"
  using assms
proof (induction cs arbitrary: s)
  case Nil
  then show ?case by simp
next
  case (Cons c cs)
  show ?case
  proof (cases "visit sha1 T td c s")
    case (Inl r)
    with Cons.prems have "fmlookup (record_match sha1 T c (results s)) h = Some ip"
      using visit_results[of sha1 T td c s] by simp
    then show ?thesis
      by (auto simp: record_match_def split: if_splits)
  next
    case (Inr s')
    with Cons.prems
    have "fmlookup (results (sum_out (for_loop cs (visit sha1 T td) s'))) h = Some ip"
      by simp
    from Cons.IH[OF this]
    have "fmlookup (results s') h = Some ip \<or> ip \<in> set cs \<and> sha1 ip = h \<and> h |\<in>| T" .
    moreover have "results s' = record_match sha1 T c (results s)"
      using visit_results[of sha1 T td c s] Inr by simp
    ultimately show ?thesis
      by (auto simp: record_match_def split: if_splits)
  qed
qed

section \<open>The candidate enumerator\<close>

lemma length_py_range: "length (py_range a b) = nat (b - a)"
  by (simp add: py_range_def)

lemma set_py_range: "set (py_range a b) = {a..<b}"
  by (auto simp: py_range_def)

lemma distinct_py_range: "distinct (py_range a b)"
  by (simp add: py_range_def)

lemma nth_py_range: "k < nat (b - a) \<Longrightarrow> py_range a b ! k = a + int k"
  by (simp add: py_range_def)

lemma py_range_empty: "b \<le> a \<Longrightarrow> py_range a b = []"
  by (simp add: py_range_def)

lemma concat_map_product:
  "concat (map (\<lambda>x. concat (map (\<lambda>y. F x y) ys)) xs)
   = concat (map (\<lambda>(x, y). F x y) (List.product xs ys))"
  by (induction xs) (simp_all add: comp_def)

lemma concat_map_map_product:
  "concat (map (\<lambda>x. map (\<lambda>y. f x y) ys) xs) = map (\<lambda>(x, y). f x y) (List.product xs ys)"
  by (induction xs) (simp_all add: comp_def)

lemma candidates_quads:
  "candidates s e = map (\<lambda>(a, b, c, d). ip_str a b c d) (quads s e)"
proof -
  let ?R = "py_range 0 256"
  have 1: "concat (map (\<lambda>c. map (\<lambda>d. ip_str a b c d) ?R) ?R)
           = map (\<lambda>(c, d). ip_str a b c d) (List.product ?R ?R)" for a b
    by (rule concat_map_map_product)
  have 2: "candidates_of a
           = map (\<lambda>(b, c, d). ip_str a b c d) (List.product ?R (List.product ?R ?R))" for a
    unfolding candidates_of_def 1
    by (rule concat_map_map_product[of "\<lambda>b (c, d). ip_str a b c d"])
  show ?thesis
    unfolding candidates_def quads_def
    using concat_map_map_product[of "\<lambda>a (b, c, d). ip_str a b c d"
        "List.product ?R (List.product ?R ?R)" "py_range s e"]
    by (simp add: 2 cong: map_cong)
qed

lemma length_quads: "length (quads s e) = nat (e - s) * 16777216"
  by (simp add: quads_def length_py_range)

lemma set_quads:
  "set (quads s e) = {s..<e} \<times> {0..<256} \<times> {0..<256} \<times> {0..<256}"
  by (simp add: quads_def set_py_range)

lemma distinct_quads: "distinct (quads s e)"
  unfolding quads_def by (intro distinct_product distinct_py_range)

lemma inj_on_ip_str: "inj_on (\<lambda>(a, b, c, d). ip_str a b c d) A"
  by (rule inj_onI) (auto dest: ip_str_inj)

lemma length_candidates: "length (candidates s e) = nat (e - s) * 16777216"
  by (simp add: candidates_quads length_quads)

lemma distinct_candidates: "distinct (candidates s e)"
  by (simp add: candidates_quads distinct_map distinct_quads inj_on_ip_str)

lemma set_candidates:
  "set (candidates s e) =
   {ip_str a b c d | a b c d. s \<le> a \<and> a < e \<and> 0 \<le> b \<and> b < 256 \<and> 0 \<le> c \<and> c < 256
                              \<and> 0 \<le> d \<and> d < 256}"
proof (intro set_eqI iffI)
  fix x assume "x \<in> set (candidates s e)"
  then obtain a b c d where "x = ip_str a b c d" "(a, b, c, d) \<in> set (quads s e)"
    by (auto simp: candidates_quads)
  then show "x \<in> {ip_str a b c d | a b c d. s \<le> a \<and> a < e \<and> 0 \<le> b \<and> b < 256 \<and> 0 \<le> c
                 \<and> c < 256 \<and> 0 \<le> d \<and> d < 256}"
    unfolding set_quads by simp blast
next
  fix x assume "x \<in> {ip_str a b c d | a b c d. s \<le> a \<and> a < e \<and> 0 \<le> b \<and> b < 256 \<and> 0 \<le> c
                 \<and> c < 256 \<and> 0 \<le> d \<and> d < 256}"
  then obtain a b c d where x: "x = ip_str a b c d"
    and r: "s \<le> a" "a < e" "0 \<le> b" "b < 256" "0 \<le> c" "c < 256" "0 \<le> d" "d < 256"
    by blast
  from r have "(a, b, c, d) \<in> set (quads s e)"
    unfolding set_quads by simp
  then have "(\<lambda>(a, b, c, d). ip_str a b c d) (a, b, c, d) \<in> set (candidates s e)"
    unfolding candidates_quads set_map by (rule imageI)
  with x show "x \<in> set (candidates s e)" by simp
qed

lemma mod_mult_div: "(k::nat) mod (n * m) div n = k div n mod m"
  by (cases "n = 0") (simp_all add: mod_mult2_eq)

lemma mod_mult_mod: "(k::nat) mod (n * m) mod n = k mod n"
  by (simp add: mod_mod_cancel)

lemma nth_quads:
  assumes "k < nat (e - s) * 16777216"
  shows "quads s e ! k = (s + int (k div 16777216), int (k div 65536 mod 256),
                          int (k div 256 mod 256), int (k mod 256))"
proof -
  let ?R = "py_range 0 256"
  have a: "k div 16777216 < nat (e - s)"
    using assms by (simp add: less_mult_imp_div_less)
  have 1: "quads s e ! k = (py_range s e ! (k div 16777216),
             List.product ?R (List.product ?R ?R) ! (k mod 16777216))"
    unfolding quads_def using assms
    by (subst product_nth) (simp_all add: length_py_range)
  have 2: "List.product ?R (List.product ?R ?R) ! (k mod 16777216)
           = (?R ! (k mod 16777216 div 65536), List.product ?R ?R ! (k mod 16777216 mod 65536))"
    by (subst product_nth) (simp_all add: length_py_range)
  have 3: "List.product ?R ?R ! (k mod 16777216 mod 65536)
           = (?R ! (k mod 16777216 mod 65536 div 256), ?R ! (k mod 16777216 mod 65536 mod 256))"
    by (subst product_nth) (simp_all add: length_py_range)
  have b: "k mod 16777216 div 65536 = k div 65536 mod 256"
    using mod_mult_div[of k 65536 256] by simp
  have m: "k mod 16777216 mod 65536 = k mod 65536"
    using mod_mult_mod[of k 65536 256] by simp
  have c: "k mod 16777216 mod 65536 div 256 = k div 256 mod 256"
    using mod_mult_div[of k 256 256] by (simp add: m)
  have d: "k mod 16777216 mod 65536 mod 256 = k mod 256"
    using mod_mult_mod[of k 256 256] by (simp add: m)
  show ?thesis
    unfolding 1 2 3 b c d using a by (simp add: nth_py_range)
qed

lemma nth_candidates:
  assumes "k < length (candidates s e)"
  shows "candidates s e ! k = ip_str (s + int (k div 16777216)) (int (k div 65536 mod 256))
                          (int (k div 256 mod 256)) (int (k mod 256))"
proof -
  from assms have k: "k < nat (e - s) * 16777216" by (simp add: length_candidates)
  then have "k < length (quads s e)" by (simp add: length_quads)
  then show ?thesis
    by (simp add: candidates_quads nth_quads[OF k])
qed

lemma candidates_empty: "e \<le> s \<Longrightarrow> candidates s e = []"
  by (simp add: candidates_def py_range_empty)

section \<open>The range scanner\<close>

lemma crack_range_results:
  "results (crack_range sha1 s e T td)
   = results (sum_out (for_loop (candidates s e) (visit sha1 T td) scan_init))"
  using crack_range_flat[of sha1 s e T td] by (simp add: same_core_def)

lemma crack_range_hashed:
  "hashed (crack_range sha1 s e T td)
   = hashed (sum_out (for_loop (candidates s e) (visit sha1 T td) scan_init))"
  using crack_range_flat[of sha1 s e T td] by (simp add: same_core_def)

lemma crack_range_single:
  assumes "x \<in> set (candidates s e)"
      and "\<forall>y\<in>set (candidates s e). sha1 y = sha1 x \<longrightarrow> y = x"
  shows "results (crack_range sha1 s e {|sha1 x|} td) = fmupd (sha1 x) x fmempty"
  unfolding crack_range_results
  by (rule flat_single[OF _ assms]) (simp add: scan_init_def)

lemma ip_str_in_candidates:
  assumes "s \<le> a" "a < e" "0 \<le> b" "b < 256" "0 \<le> c" "c < 256" "0 \<le> d" "d < 256"
  shows "ip_str a b c d \<in> set (candidates s e)"
  unfolding set_candidates using assms by blast

lemma ip_str_10_0_0_1: "ip_str 10 0 0 1 = ''10.0.0.1''"
  by (simp add: ip_str_def str_int_def str_nat_small str_nat_big digit_char_def)

text \<open>
  Claim C1. Let \<open>X = a.b.c.d\<close> be a candidate whose first octet lies in the scanned
  sub-range and whose other octets lie in \<open>[0,256)\<close>, and let no other candidate of the
  sub-range have the digest of \<open>X\<close>. Then a scan for the single target \<open>sha1 X\<close>
  returns the dict with the one entry \<open>sha1 X \<mapsto> X\<close>.
\<close>

theorem scan_finds_single_target:
  assumes "start_a \<le> a" "a < end_a" "0 \<le> b" "b < 256" "0 \<le> c" "c < 256" "0 \<le> d" "d < 256"
      and "\<forall>y\<in>set (candidates start_a end_a).
             sha1 y = sha1 (ip_str a b c d) \<longrightarrow> y = ip_str a b c d"
  shows "results (crack_range sha1 start_a end_a {|sha1 (ip_str a b c d)|} target_dict)
         = fmupd (sha1 (ip_str a b c d)) (ip_str a b c d) fmempty"
proof -
  have "ip_str a b c d \<in> set (candidates start_a end_a)"
    using assms(1-8) by (rule ip_str_in_candidates)
  from crack_range_single[OF this assms(9)] show ?thesis .
qed

text \<open>The scan of \<open>[10,11)\<close> for \<open>10.0.0.1\<close>, with the identity as a digest without
  collisions.\<close>

theorem scan_finds_single_target_witness:
  "results (crack_range (\<lambda>ip. ip) 10 11 {|''10.0.0.1''|} None)
   = fmupd ''10.0.0.1'' ''10.0.0.1'' fmempty"
  using scan_finds_single_target[of 10 10 11 0 0 1 "\<lambda>ip. ip" None]
  by (simp add: ip_str_10_0_0_1)

lemma recorded_dom_subset: "fmdom (fold (record_match sha1 T) cs m) |\<subseteq>| fmdom m |\<union>| T"
proof (induction cs arbitrary: m)
  case Nil
  then show ?case by simp
next
  case (Cons c cs)
  have "fmdom (record_match sha1 T c m) |\<subseteq>| fmdom m |\<union>| T"
    by (auto simp: record_match_def)
  with Cons.IH[of "record_match sha1 T c m"] show ?case
    by simp blast
qed

lemma recorded_within_targets: "fmdom (recorded sha1 T cs) |\<subseteq>| T"
  using recorded_dom_subset[of sha1 T cs fmempty] by (simp add: recorded_def)

lemma recorded_take_Suc:
  assumes "i < length cs"
  shows "recorded sha1 T (take (Suc i) cs) = record_match sha1 T (cs ! i) (recorded sha1 T (take i cs))"
  using assms by (simp add: recorded_def take_Suc_conv_app_nth)

lemma single_target_count:
  assumes "fcard T = 1" "i < length cs" "sha1 (cs ! i) |\<in>| T"
  shows "fcard (fmdom (recorded sha1 T (take (Suc i) cs))) = fcard T"
proof -
  let ?D = "fmdom (recorded sha1 T (take (Suc i) cs))"
  have "sha1 (cs ! i) |\<in>| ?D"
    using assms(3) by (simp add: recorded_take_Suc[OF assms(2)] record_match_def)
  then have "?D \<noteq> {||}" by auto
  then have "1 \<le> fcard ?D"
    by (metis One_nat_def Suc_leI fcard_0_eq neq0_conv)
  moreover have "fcard ?D \<le> fcard T"
    by (rule fcard_mono[OF recorded_within_targets])
  ultimately show ?thesis using assms(1) by simp
qed

lemma crack_range_trace:
  assumes "T \<noteq> {||}"
  shows "prefix (hashed (crack_range sha1 s e T td)) (candidates s e)"
    and "results (crack_range sha1 s e T td) = recorded sha1 T (hashed (crack_range sha1 s e T td))"
    and "\<forall>n<length (hashed (crack_range sha1 s e T td)).
           fcard (fmdom (recorded sha1 T (take n (candidates s e)))) \<noteq> fcard T"
    and "hashed (crack_range sha1 s e T td) \<noteq> candidates s e
         \<longrightarrow> fcard (fmdom (results (crack_range sha1 s e T td))) = fcard T"
proof -
  have "fcard (fmdom (results scan_init)) = 0"
    by (simp add: scan_init_def fcard_fempty)
  moreover have "fcard T \<noteq> 0"
    using assms by simp
  ultimately have "fcard (fmdom (results scan_init)) \<noteq> fcard T"
    by arith
  from flat_scan[OF this, of "candidates s e" sha1 td]
  show "prefix (hashed (crack_range sha1 s e T td)) (candidates s e)"
    and "results (crack_range sha1 s e T td) = recorded sha1 T (hashed (crack_range sha1 s e T td))"
    and "\<forall>n<length (hashed (crack_range sha1 s e T td)).
           fcard (fmdom (recorded sha1 T (take n (candidates s e)))) \<noteq> fcard T"
    and "hashed (crack_range sha1 s e T td) \<noteq> candidates s e
         \<longrightarrow> fcard (fmdom (results (crack_range sha1 s e T td))) = fcard T"
    unfolding crack_range_results crack_range_hashed recorded_def
    by (auto simp: scan_init_def)
qed

lemma crack_range_empty_targets:
  "hashed (crack_range sha1 s e {||} td) = candidates s e"
  "results (crack_range sha1 s e {||} td) = fmempty"
  unfolding crack_range_hashed crack_range_results
  by (simp_all add: flat_empty_targets scan_init_def)

text \<open>
  Claim C4, for a snapshot that is not empty. The candidates whose digest the scan
  computes are a prefix of the enumeration; the dict it returns is the one recorded
  from that prefix; at no shorter prefix did the number of recorded digests equal the
  size of the snapshot; and when the scan stops before the end of the enumeration, the
  number equals that size. So the scan stops at the first candidate after which the
  count equals the size, and computes no digest after it. With a snapshot of size one,
  no hashed candidate but the last one matches the target.
\<close>

theorem scan_stops_when_count_reached:
  assumes "targets \<noteq> {||}"
  shows "prefix (hashed (crack_range sha1 start_a end_a targets target_dict))
                (candidates start_a end_a)
       \<and> results (crack_range sha1 start_a end_a targets target_dict)
           = recorded sha1 targets (hashed (crack_range sha1 start_a end_a targets target_dict))
       \<and> (\<forall>n<length (hashed (crack_range sha1 start_a end_a targets target_dict)).
             fcard (fmdom (recorded sha1 targets (take n (candidates start_a end_a))))
               \<noteq> fcard targets)
       \<and> (hashed (crack_range sha1 start_a end_a targets target_dict) \<noteq> candidates start_a end_a
            \<longrightarrow> fcard (fmdom (results (crack_range sha1 start_a end_a targets target_dict)))
                 = fcard targets)
       \<and> (fcard targets = 1 \<longrightarrow>
            (\<forall>i. Suc i < length (hashed (crack_range sha1 start_a end_a targets target_dict))
               \<longrightarrow> sha1 (hashed (crack_range sha1 start_a end_a targets target_dict) ! i)
                     |\<notin>| targets))"
proof -
  let ?r = "crack_range sha1 start_a end_a targets target_dict"
  let ?cs = "candidates start_a end_a"
  note main = crack_range_trace[OF assms, of sha1 start_a end_a target_dict]
  have one: "sha1 (hashed ?r ! i) |\<notin>| targets"
    if c: "fcard targets = 1" and i: "Suc i < length (hashed ?r)" for i
  proof
    assume m: "sha1 (hashed ?r ! i) |\<in>| targets"
    from main(1) have len: "length (hashed ?r) \<le> length ?cs"
      by (rule prefix_length_le)
    from main(1) i have "hashed ?r ! i = ?cs ! i"
      by (auto simp: prefix_def nth_append)
    with m have m': "sha1 (?cs ! i) |\<in>| targets" by simp
    from i len have "i < length ?cs" by simp
    from single_target_count[of targets i ?cs sha1, OF c this m']
    have "fcard (fmdom (recorded sha1 targets (take (Suc i) ?cs))) = fcard targets" by simp
    with main(3) i show False by blast
  qed
  from main one show ?thesis by blast
qed

text \<open>
  The claim as it was stated fails at the empty snapshot. Before the first candidate the
  count equals the size of the snapshot (both are zero), yet the scan of \<open>[0,1)\<close> goes
  on to compute the digest of all \<open>256\<^sup>3\<close> candidates: the test of line 37 is only
  reached after a match, and nothing matches. The statement above says nothing about
  this case.
\<close>

theorem empty_snapshot_counterexample:
  "fcard (fmdom (recorded (\<lambda>ip. ip) {||} (take 0 (candidates 0 1)))) = fcard ({||} :: string fset)
   \<and> hashed (crack_range (\<lambda>ip. ip) 0 1 {||} None) = candidates 0 1
   \<and> length (candidates 0 1) = 16777216"
  by (simp add: crack_range_empty_targets length_candidates recorded_def)

text \<open>The scan of \<open>[10,11)\<close> for the one target \<open>10.0.0.1\<close>.\<close>

theorem scan_stops_when_count_reached_witness:
  "{|''10.0.0.1''|} \<noteq> ({||} :: string fset)
   \<and> prefix (hashed (crack_range (\<lambda>ip. ip) 10 11 {|''10.0.0.1''|} None)) (candidates 10 11)
   \<and> results (crack_range (\<lambda>ip. ip) 10 11 {|''10.0.0.1''|} None)
       = recorded (\<lambda>ip. ip) {|''10.0.0.1''|}
           (hashed (crack_range (\<lambda>ip. ip) 10 11 {|''10.0.0.1''|} None))"
  using scan_stops_when_count_reached[of "{|''10.0.0.1''|}" "\<lambda>ip. ip" 10 11 None]
  by simp

text \<open>
  Claim C9. When \<open>start_a \<ge> end_a\<close> the enumerator yields no candidate, and the scan
  returns the empty dict for every snapshot, having computed no digest (and printed
  nothing).
\<close>

theorem scan_empty_range:
  assumes "end_a \<le> start_a"
  shows "candidates start_a end_a = []
       \<and> crack_range sha1 start_a end_a targets target_dict = scan_init
       \<and> results (crack_range sha1 start_a end_a targets target_dict) = fmempty
       \<and> hashed (crack_range sha1 start_a end_a targets target_dict) = []"
  using assms
  by (simp add: candidates_empty crack_range_def py_range_empty scan_init_def)

text \<open>The sub-range from 7 to 5.\<close>

theorem scan_empty_range_witness:
  "(5::int) \<le> 7 \<and> candidates 7 5 = []
   \<and> results (crack_range (\<lambda>ip. ip) 7 5 {|''7.0.0.1''|} None) = fmempty
   \<and> hashed (crack_range (\<lambda>ip. ip) 7 5 {|''7.0.0.1''|} None) = []"
  using scan_empty_range[of 5 7 "\<lambda>ip. ip" "{|''7.0.0.1''|}" None]
  by (simp add: scan_init_def)

text \<open>
  Claim C10. Every entry \<open>h \<mapsto> ip\<close> of the dict a scan returns has \<open>h\<close> in the snapshot,
  \<open>ip\<close> a preimage of \<open>h\<close>, and \<open>ip\<close> a dotted quad whose first octet lies in the scanned
  sub-range and whose other octets lie in \<open>[0,256)\<close>. This holds for every sub-range.
\<close>

theorem scan_sound:
  assumes "fmlookup (results (crack_range sha1 start_a end_a targets target_dict)) h = Some ip"
  shows "h |\<in>| targets \<and> sha1 ip = h
       \<and> (\<exists>a b c d. ip = ip_str a b c d \<and> start_a \<le> a \<and> a < end_a
             \<and> 0 \<le> b \<and> b < 256 \<and> 0 \<le> c \<and> c < 256 \<and> 0 \<le> d \<and> d < 256)"
proof -
  from assms have "fmlookup (results scan_init) h = Some ip
      \<or> (ip \<in> set (candidates start_a end_a) \<and> sha1 ip = h \<and> h |\<in>| targets)"
    unfolding crack_range_results by (rule flat_sound)
  then have "ip \<in> set (candidates start_a end_a)" "sha1 ip = h" "h |\<in>| targets"
    by (simp_all add: scan_init_def)
  then show ?thesis
    unfolding set_candidates by blast
qed

lemma example_scan_10:
  "results (crack_range (\<lambda>ip. ip) 10 11 {|''10.0.0.1''|} None)
   = fmupd ''10.0.0.1'' ''10.0.0.1'' fmempty"
proof -
  have "ip_str 10 0 0 1 \<in> set (candidates 10 11)"
    by (rule ip_str_in_candidates) simp_all
  from crack_range_single[OF this, of "\<lambda>ip. ip" None] show ?thesis
    by (simp add: ip_str_10_0_0_1)
qed

text \<open>The entry found by the scan of \<open>[10,11)\<close> for \<open>10.0.0.1\<close>.\<close>

theorem scan_sound_witness:
  "fmlookup (results (crack_range (\<lambda>ip. ip) 10 11 {|''10.0.0.1''|} None)) ''10.0.0.1''
     = Some ''10.0.0.1''
   \<and> ''10.0.0.1'' |\<in>| {|''10.0.0.1''|}
   \<and> (\<exists>a b c d. ''10.0.0.1'' = ip_str a b c d \<and> 10 \<le> a \<and> a < 11
         \<and> 0 \<le> b \<and> b < 256 \<and> 0 \<le> c \<and> c < 256 \<and> 0 \<le> d \<and> d < 256)"
proof -
  have l: "fmlookup (results (crack_range (\<lambda>ip. ip) 10 11 {|''10.0.0.1''|} None)) ''10.0.0.1''
           = Some ''10.0.0.1''"
    by (simp add: example_scan_10)
  from scan_sound[OF l] l show ?thesis by simp
qed

lemma crack_range_hashed_prefix:
  "prefix (hashed (crack_range sha1 s e T td)) (candidates s e)"
proof (cases "T = {||}")
  case True
  then show ?thesis by (simp add: crack_range_empty_targets)
next
  case False
  then show ?thesis by (rule crack_range_trace(1))
qed

text \<open>
  Claim C5. The enumeration of \<open>[start_a, end_a)\<close> has \<open>(end_a - start_a) \<cdot> 256\<^sup>3\<close>
  candidates (none when the sub-range is empty), all distinct; they are the dotted quads
  whose first octet lies in the sub-range and whose other octets lie in \<open>[0,256)\<close>; and
  the candidate at position \<open>k\<close> has the octets \<open>start_a + k div 256\<^sup>3\<close>,
  \<open>k div 256\<^sup>2 mod 256\<close>, \<open>k div 256 mod 256\<close> and \<open>k mod 256\<close>, which is the nested
  ascending order with the first octet outermost. For \<open>[0,256)\<close> that makes
  \<open>256\<^sup>4 = 4294967296\<close> candidates. This list is what the loops of \<open>crack_range\<close>
  enumerate: a scan that never returns early (the empty snapshot) computes the digest
  of exactly these candidates in this order, and every scan computes the digests of a
  prefix of them.
\<close>

theorem enumerator_complete:
  "length (candidates start_a end_a) = nat (end_a - start_a) * 256 ^ 3
   \<and> distinct (candidates start_a end_a)
   \<and> set (candidates start_a end_a)
       = {ip_str a b c d | a b c d. start_a \<le> a \<and> a < end_a \<and> 0 \<le> b \<and> b < 256
                                  \<and> 0 \<le> c \<and> c < 256 \<and> 0 \<le> d \<and> d < 256}
   \<and> (\<forall>k<length (candidates start_a end_a).
         candidates start_a end_a ! k
         = ip_str (start_a + int (k div 256 ^ 3)) (int (k div 256 ^ 2 mod 256))
                  (int (k div 256 mod 256)) (int (k mod 256)))
   \<and> length (candidates 0 256) = 4294967296
   \<and> hashed (crack_range sha1 start_a end_a {||} target_dict) = candidates start_a end_a
   \<and> prefix (hashed (crack_range sha1 start_a end_a targets target_dict))
             (candidates start_a end_a)"
  using nth_candidates[of _ start_a end_a]
    crack_range_hashed_prefix[of sha1 start_a end_a targets target_dict]
  by (simp add: length_candidates distinct_candidates set_candidates
        crack_range_empty_targets)

text \<open>Position \<open>10 \<cdot> 256\<^sup>3 + 1\<close> of the full enumeration holds \<open>10.0.0.1\<close>.\<close>

theorem enumerator_complete_witness:
  "length (candidates 0 256) = 4294967296 \<and> distinct (candidates 0 256)
   \<and> (167772161::nat) < length (candidates 0 256)
   \<and> candidates 0 256 ! 167772161 = ''10.0.0.1''
   \<and> hashed (crack_range (\<lambda>ip. ip) 0 256 {||} None) ! 167772161 = ''10.0.0.1''"
proof -
  have "ip_str (0 + int (167772161 div 256 ^ 3)) (int (167772161 div 256 ^ 2 mod 256))
          (int (167772161 div 256 mod 256)) (int (167772161 mod 256)) = ''10.0.0.1''"
    by (simp add: ip_str_10_0_0_1)
  with enumerator_complete[of 0 256 "\<lambda>ip. ip" None "{||}"] show ?thesis by simp
qed

section \<open>The aggregator and the two phases\<close>

lemma chunks_eval:
  "chunks = [(0,16),(16,32),(32,48),(48,64),(64,80),(80,96),(96,112),(112,128),(128,144),
     (144,160),(160,176),(176,192),(192,208),(208,224),(224,240),(240,256)]"
  by (simp add: chunks_def range_step.simps)

lemma chunks_map: "chunks = map (\<lambda>k. (16 * int k, 16 * int k + 16)) [0..<16]"
  unfolding chunks_eval by (simp add: upt_rec)

lemma octets_union: "(\<Union>c\<in>set chunks. octets_of c) = {0..<256}"
  unfolding chunks_eval by (auto simp: octets_of_def)

lemma octets_disjoint:
  assumes "i < 16" "j < 16" "i \<noteq> j"
  shows "octets_of (chunks ! i) \<inter> octets_of (chunks ! j) = {}"
proof -
  have "chunks ! i = (16 * int i, 16 * int i + 16)" "chunks ! j = (16 * int j, 16 * int j + 16)"
    using assms(1,2) by (simp_all add: chunks_map)
  with assms(3) show ?thesis
    by (auto simp: octets_of_def)
qed

lemma crack_range_dom: "fmdom (results (crack_range sha1 s e T td)) |\<subseteq>| T"
proof
  fix h assume "h |\<in>| fmdom (results (crack_range sha1 s e T td))"
  then obtain ip where "fmlookup (results (crack_range sha1 s e T td)) h = Some ip"
    by (auto simp: fmlookup_dom_iff)
  then have "fmlookup (results scan_init) h = Some ip
      \<or> (ip \<in> set (candidates s e) \<and> sha1 ip = h \<and> h |\<in>| T)"
    unfolding crack_range_results by (rule flat_sound)
  then show "h |\<in>| T" by (simp add: scan_init_def)
qed

lemma merge_keeps_partition:
  assumes "partitioned g table" "fmdom res |\<subseteq>| fset_of_list (map fst table)"
  shows "partitioned (merge_results res g) table"
  using assms unfolding partitioned_def merge_results_def by auto

lemma partitioned_init: "partitioned (agg_init table) table"
  by (simp add: partitioned_def agg_init_def)

lemma remaining_subset:
  "partitioned g table \<Longrightarrow> remaining g |\<subseteq>| fset_of_list (map fst table)"
  unfolding partitioned_def by auto

lemma phase1_partitioned:
  "partitioned g table \<Longrightarrow> partitioned (phase1 sha1 ranges g) table"
proof (induction ranges arbitrary: g)
  case Nil
  then show ?case by simp
next
  case (Cons r ranges)
  obtain start stop where r: "r = (start, stop)" by (cases r)
  have "fmdom (results (crack_range sha1 start stop (remaining g) None))
        |\<subseteq>| fset_of_list (map fst table)"
    using crack_range_dom[of sha1 start stop "remaining g" None] remaining_subset[OF Cons.prems]
    by (rule fsubset_trans)
  from merge_keeps_partition[OF Cons.prems this] Cons.prems show ?case
    by (simp add: r Cons.IH)
qed

text \<open>The invariant of the pool: the two variables partition the keys of the table,
  and whatever set a worker received lies inside those keys.\<close>

lemma pool_step_partitioned:
  assumes "partitioned (aggregate p) table"
      and "\<forall>r\<in>set (received p). snd r |\<subseteq>| fset_of_list (map fst table)"
  shows "partitioned (aggregate (pool_step sha1 ev p)) table
       \<and> (\<forall>r\<in>set (received (pool_step sha1 ev p)). snd r |\<subseteq>| fset_of_list (map fst table))"
proof (cases ev)
  case (Sent c)
  with assms remaining_subset[OF assms(1)] show ?thesis by simp
next
  case (Done c)
  show ?thesis
  proof (cases "map_of (received p) c")
    case None
    with Done assms show ?thesis by simp
  next
    case (Some snapshot)
    then have "(c, snapshot) \<in> set (received p)" by (rule map_of_SomeD)
    with assms(2) have "snapshot |\<subseteq>| fset_of_list (map fst table)" by force
    with crack_range_dom[of sha1 "fst c" "snd c" snapshot None]
    have "fmdom (results (crack_range sha1 (fst c) (snd c) snapshot None))
          |\<subseteq>| fset_of_list (map fst table)"
      by (rule fsubset_trans)
    from merge_keeps_partition[OF assms(1) this] Done Some assms show ?thesis
      by (simp add: Let_def)
  qed
qed

lemma pool_fold_partitioned:
  assumes "partitioned (aggregate p) table"
      and "\<forall>r\<in>set (received p). snd r |\<subseteq>| fset_of_list (map fst table)"
  shows "partitioned (aggregate (fold (pool_step sha1) evs p)) table"
  using assms
proof (induction evs arbitrary: p)
  case Nil
  then show ?case by simp
next
  case (Cons ev evs)
  from pool_step_partitioned[OF Cons.prems, of sha1 ev] Cons.IH[of "pool_step sha1 ev p"]
  show ?case by simp
qed

text \<open>
  Claim C2. After any number \<open>k\<close> of the scans of phase 1, and after any number \<open>j\<close> of
  events of phase 2, whatever the pool does and in whatever order the workers complete,
  the pending set and the keys of the accumulated dict are disjoint and together make up
  the keys of the target table. (The state after \<open>k\<close> iterations of a loop is the loop
  run on the first \<open>k\<close> elements; once a loop has been left, later prefixes give the
  same state.)
\<close>

theorem pending_and_resolved_partition_targets:
  "partitioned (phase1 sha1 (take k ranges) (agg_init table)) table
   \<and> partitioned
       (aggregate (pool_run sha1 (take j events) (phase1 sha1 ranges (agg_init table))))
       table"
proof -
  have 1: "partitioned (phase1 sha1 rs (agg_init table)) table" for rs
    by (rule phase1_partitioned[OF partitioned_init])
  have "partitioned
          (aggregate (fold (pool_step sha1) (take j events)
             (submit_all (phase1 sha1 ranges (agg_init table))))) table"
    by (rule pool_fold_partitioned) (simp_all add: submit_all_def 1)
  with 1[of "take k ranges"] show ?thesis
    by (simp add: pool_run_def)
qed

lemma fmadd_disjoint_commute:
  assumes "fmdom a |\<inter>| fmdom b = {||}"
  shows "m ++\<^sub>f a ++\<^sub>f b = m ++\<^sub>f b ++\<^sub>f a"
proof (rule fmap_ext)
  fix x
  from assms have "\<not> (x |\<in>| fmdom a \<and> x |\<in>| fmdom b)" by auto
  then show "fmlookup (m ++\<^sub>f a ++\<^sub>f b) x = fmlookup (m ++\<^sub>f b ++\<^sub>f a) x"
    by (auto simp: fmlookup_dom_iff)
qed

text \<open>
  Claim C8. Merging two worker results with disjoint key sets into the aggregate gives
  the same state, and so the same accumulated dict, in either order.
\<close>

theorem merge_commutes_on_disjoint_results:
  assumes "fmdom res1 |\<inter>| fmdom res2 = {||}"
  shows "merge_results res2 (merge_results res1 g) = merge_results res1 (merge_results res2 g)
       \<and> all_results (merge_results res2 (merge_results res1 g))
           = all_results (merge_results res1 (merge_results res2 g))"
proof -
  have "remaining g |-| fmdom res1 |-| fmdom res2 = remaining g |-| fmdom res2 |-| fmdom res1"
    by auto
  then show ?thesis
    by (simp add: merge_results_def fmadd_disjoint_commute[OF assms])
qed

text \<open>Two results with one entry each.\<close>

theorem merge_commutes_on_disjoint_results_witness:
  "fmdom (fmupd ''h1'' ''10.0.0.1'' fmempty) |\<inter>| fmdom (fmupd ''h2'' ''10.0.0.2'' fmempty) = {||}
   \<and> all_results (merge_results (fmupd ''h2'' ''10.0.0.2'' fmempty)
        (merge_results (fmupd ''h1'' ''10.0.0.1'' fmempty) (agg_init [(''h1'', ''a''), (''h2'', ''b'')])))
     = all_results (merge_results (fmupd ''h1'' ''10.0.0.1'' fmempty)
        (merge_results (fmupd ''h2'' ''10.0.0.2'' fmempty) (agg_init [(''h1'', ''a''), (''h2'', ''b'')])))"
proof -
  have d: "fmdom (fmupd ''h1'' ''10.0.0.1'' fmempty) |\<inter>| fmdom (fmupd ''h2'' ''10.0.0.2'' fmempty)
           = {||}"
    by simp
  from merge_commutes_on_disjoint_results[OF d] d show ?thesis
    by blast
qed






lemma report_total:
  "report table res =
   Inr (map (\<lambda>(h, desc). case fmlookup res h of
                            Some ip \<Rightarrow> ''  '' @ desc @ '': '' @ ip
                          | None \<Rightarrow> ''  '' @ desc @ '': NOT FOUND (hash: '' @ h @ '')'') table)"
proof (induction table)
  case Nil
  then show ?case by simp
next
  case (Cons p table)
  obtain h desc where p: "p = (h, desc)" by (cases p)
  show ?case
  proof (cases "fmlookup res h")
    case None
    then have "h |\<notin>| fmdom res" by (simp add: fmdom_notI)
    with None Cons.IH show ?thesis by (simp add: p)
  next
    case (Some ip)
    then have "h |\<in>| fmdom res" by (simp add: fmdomI)
    with Some Cons.IH show ?thesis by (simp add: p getitem_def)
  qed
qed

lemma TARGET_HASHES_keys: "distinct (map fst TARGET_HASHES)" "length TARGET_HASHES = 8"
  by (simp_all add: TARGET_HASHES_def)

text \<open>
  Claim C7. For every digest function and every sequence of events of the pool, \<open>main\<close>
  ends with a report and not with an error, and the report has one line for each of the eight
  entries of the target table, in the table's order: the label with the candidate the
  final dict holds for the digest, or the label with \<open>NOT FOUND\<close> and the digest when it
  holds none. The keys of the table are distinct, so that is one line for each digest.
\<close>

theorem final_report_covers_every_target:
  "main sha1 events =
     Inr (map (\<lambda>(h, desc).
            case fmlookup (all_results (run sha1 TARGET_HASHES common_ranges events)) h of
              Some ip \<Rightarrow> ''  '' @ desc @ '': '' @ ip
            | None \<Rightarrow> ''  '' @ desc @ '': NOT FOUND (hash: '' @ h @ '')'') TARGET_HASHES)
   \<and> distinct (map fst TARGET_HASHES) \<and> length TARGET_HASHES = 8"
  unfolding main_def by (simp add: report_total TARGET_HASHES_keys)

text \<open>The chunks of phase 2: sixteen of them, covering \<open>[0,256)\<close>, disjoint from each
  other, all queued by \<open>submit_all\<close>.\<close>

lemma chunks_partition:
  "length chunks = 16 \<and> (\<Union>c\<in>set chunks. octets_of c) = {0..<256}
   \<and> queued (submit_all g) = chunks"
  by (simp add: octets_union submit_all_def) (simp add: chunks_eval)

section \<open>What the workers of phase 2 receive\<close>

lemma flat_unique_match:
  assumes "results s = fmempty \<or> results s = fmupd (sha1 x) x fmempty"
      and "sha1 x |\<in>| T"
      and "\<forall>y\<in>set cs. sha1 y |\<in>| T \<longrightarrow> y = x"
  shows "results (sum_out (for_loop cs (visit sha1 T td) s))
         = (if x \<in> set cs then fmupd (sha1 x) x fmempty else results s)"
  using assms(1,3)
proof (induction cs arbitrary: s)
  case Nil
  then show ?case by simp
next
  case (Cons c cs)
  let ?R = "fmupd (sha1 x) x fmempty"
  from Cons.prems(2) have rest: "\<forall>y\<in>set cs. sha1 y |\<in>| T \<longrightarrow> y = x" by simp
  show ?case
  proof (cases "c = x")
    case True
    have r: "record_match sha1 T x (results s) = ?R"
      using Cons.prems(1) assms(2) by (auto simp: record_match_def)
    show ?thesis
    proof (cases "visit sha1 T td x s")
      case (Inl r')
      with visit_results[of sha1 T td x s] r True show ?thesis by simp
    next
      case (Inr s')
      with visit_results[of sha1 T td x s] r have "results s' = ?R" by simp
      with Cons.IH[OF _ rest, of s'] Inr True show ?thesis by simp
    qed
  next
    case False
    with Cons.prems(2) have "sha1 c |\<notin>| T" by auto
    then have v: "visit sha1 T td c s = Inr (s\<lparr>hashed := hashed s @ [c]\<rparr>)"
      by (simp add: visit_def)
    from Cons.IH[OF _ rest, of "s\<lparr>hashed := hashed s @ [c]\<rparr>"] Cons.prems(1) False
    show ?thesis by (simp add: v)
  qed
qed

lemma crack_range_unique_match:
  assumes "x \<in> set (candidates s e)" "sha1 x |\<in>| T"
      and "\<forall>y\<in>set (candidates s e). sha1 y |\<in>| T \<longrightarrow> y = x"
  shows "results (crack_range sha1 s e T td) = fmupd (sha1 x) x fmempty"
  unfolding crack_range_results
  using flat_unique_match[OF _ assms(2,3), of scan_init td] assms(1)
  by (simp add: scan_init_def)

lemma crack_range_nomatch:
  assumes "\<forall>c\<in>set (candidates s e). sha1 c |\<notin>| T"
  shows "results (crack_range sha1 s e T td) = fmempty"
  unfolding crack_range_results
  by (simp add: flat_nomatch[OF assms] scan_init_def)

lemma ip_str_candidates_iff:
  "ip_str a b c d \<in> set (candidates s e)
   \<longleftrightarrow> s \<le> a \<and> a < e \<and> 0 \<le> b \<and> b < 256 \<and> 0 \<le> c \<and> c < 256 \<and> 0 \<le> d \<and> d < 256"
proof
  assume "ip_str a b c d \<in> set (candidates s e)"
  then obtain a' b' c' d' where e: "ip_str a b c d = ip_str a' b' c' d'"
    and r: "s \<le> a'" "a' < e" "0 \<le> b'" "b' < 256" "0 \<le> c'" "c' < 256" "0 \<le> d'" "d' < 256"
    unfolding set_candidates by blast
  from ip_str_inj[OF e] r
  show "s \<le> a \<and> a < e \<and> 0 \<le> b \<and> b < 256 \<and> 0 \<le> c \<and> c < 256 \<and> 0 \<le> d \<and> d < 256"
    by simp
next
  assume "s \<le> a \<and> a < e \<and> 0 \<le> b \<and> b < 256 \<and> 0 \<le> c \<and> c < 256 \<and> 0 \<le> d \<and> d < 256"
  then show "ip_str a b c d \<in> set (candidates s e)"
    by (intro ip_str_in_candidates) simp_all
qed

lemma merge_results_empty: "merge_results fmempty g = g"
  by (simp add: merge_results_def)

lemma phase1_nothing_found:
  assumes "\<forall>r\<in>set ranges. \<forall>c\<in>set (candidates (fst r) (snd r)). sha1 c |\<notin>| remaining g"
  shows "phase1 sha1 ranges g = g"
  using assms
proof (induction ranges)
  case Nil
  then show ?case by simp
next
  case (Cons r ranges)
  obtain start stop where r: "r = (start, stop)" by (cases r)
  from Cons.prems have "\<forall>c\<in>set (candidates start stop). sha1 c |\<notin>| remaining g"
    by (simp add: r)
  then have "results (crack_range sha1 start stop (remaining g) None) = fmempty"
    by (rule crack_range_nomatch)
  with Cons show ?case
    by (simp add: r merge_results_empty)
qed

lemma ip_str_0_0_0_1: "ip_str 0 0 0 1 = ''0.0.0.1''"
  by (simp add: ip_str_def str_int_def str_nat_small str_nat_big digit_char_def)

lemma ip_str_16_0_0_1: "ip_str 16 0 0 1 = ''16.0.0.1''"
  by (simp add: ip_str_def str_int_def str_nat_small str_nat_big digit_char_def)

lemma two_targets_ip:
  "two_targets = [(ip_str 0 0 0 1, ''first''), (ip_str 16 0 0 1, ''second'')]"
  by (simp add: two_targets_def ip_str_0_0_0_1 ip_str_16_0_0_1)

lemma two_targets_distinct: "ip_str 0 0 0 1 \<noteq> ip_str 16 0 0 1"
  using ip_str_inj[of 0 0 0 1 16 0 0 1] by auto

lemma two_targets_phase1:
  "phase1 (\<lambda>ip. ip) common_ranges (agg_init two_targets) = agg_init two_targets"
proof (rule phase1_nothing_found, intro ballI)
  fix r c assume r: "r \<in> set common_ranges"
    and c: "c \<in> set (candidates (fst r) (snd r))"
  from r have b: "(0 < fst r \<or> snd r \<le> 0) \<and> (16 < fst r \<or> snd r \<le> 16)"
    by (auto simp: common_ranges_def)
  have "c \<noteq> ip_str 0 0 0 1"
  proof
    assume "c = ip_str 0 0 0 1"
    with c b show False by (auto simp: ip_str_candidates_iff)
  qed
  moreover have "c \<noteq> ip_str 16 0 0 1"
  proof
    assume "c = ip_str 16 0 0 1"
    with c b show False by (auto simp: ip_str_candidates_iff)
  qed
  ultimately show "c |\<notin>| remaining (agg_init two_targets)"
    by (simp add: agg_init_def two_targets_ip)
qed

lemma two_targets_first_chunk:
  "results (crack_range (\<lambda>ip. ip) 0 16 {|ip_str 0 0 0 1, ip_str 16 0 0 1|} None)
   = fmupd (ip_str 0 0 0 1) (ip_str 0 0 0 1) fmempty"
proof (rule crack_range_unique_match)
  show "ip_str 0 0 0 1 \<in> set (candidates 0 16)"
    by (simp add: ip_str_candidates_iff)
  show "ip_str 0 0 0 1 |\<in>| {|ip_str 0 0 0 1, ip_str 16 0 0 1|}"
    by simp
  show "\<forall>y\<in>set (candidates 0 16). y |\<in>| {|ip_str 0 0 0 1, ip_str 16 0 0 1|}
          \<longrightarrow> y = ip_str 0 0 0 1"
  proof (intro ballI impI)
    fix y assume y: "y \<in> set (candidates 0 16)"
      and "y |\<in>| {|ip_str 0 0 0 1, ip_str 16 0 0 1|}"
    then have "y = ip_str 0 0 0 1 \<or> y = ip_str 16 0 0 1" by simp
    moreover have "y \<noteq> ip_str 16 0 0 1"
    proof
      assume "y = ip_str 16 0 0 1"
      with y show False by (simp add: ip_str_candidates_iff)
    qed
    ultimately show "y = ip_str 0 0 0 1" by simp
  qed
qed

lemma two_targets_second_chunk:
  "results (crack_range (\<lambda>ip. ip) 16 32 {|ip_str 0 0 0 1, ip_str 16 0 0 1|} None)
   = fmupd (ip_str 16 0 0 1) (ip_str 16 0 0 1) fmempty"
proof (rule crack_range_unique_match)
  show "ip_str 16 0 0 1 \<in> set (candidates 16 32)"
    by (simp add: ip_str_candidates_iff)
  show "ip_str 16 0 0 1 |\<in>| {|ip_str 0 0 0 1, ip_str 16 0 0 1|}"
    by simp
  show "\<forall>y\<in>set (candidates 16 32). y |\<in>| {|ip_str 0 0 0 1, ip_str 16 0 0 1|}
          \<longrightarrow> y = ip_str 16 0 0 1"
  proof (intro ballI impI)
    fix y assume y: "y \<in> set (candidates 16 32)"
      and "y |\<in>| {|ip_str 0 0 0 1, ip_str 16 0 0 1|}"
    then have "y = ip_str 0 0 0 1 \<or> y = ip_str 16 0 0 1" by simp
    moreover have "y \<noteq> ip_str 0 0 0 1"
    proof
      assume "y = ip_str 0 0 0 1"
      with y show False by (simp add: ip_str_candidates_iff)
    qed
    ultimately show "y = ip_str 16 0 0 1" by simp
  qed
qed

lemma two_targets_minus:
  "{|ip_str 0 0 0 1, ip_str 16 0 0 1|} |-| {|ip_str 0 0 0 1|} = {|ip_str 16 0 0 1|}"
  using two_targets_distinct by auto

lemma late_start_received:
  "received (pool_run (\<lambda>ip. ip) late_start (agg_init two_targets))
   = [((0, 16), {|ip_str 0 0 0 1, ip_str 16 0 0 1|}),
      ((16, 32), {|ip_str 0 0 0 1, ip_str 16 0 0 1|}),
      ((32, 48), {|ip_str 0 0 0 1, ip_str 16 0 0 1|}),
      ((48, 64), {|ip_str 16 0 0 1|}),
      ((64, 80), {||})]"
  by (simp add: pool_run_def late_start_def submit_all_def chunks_eval agg_init_def
        two_targets_ip two_targets_first_chunk two_targets_second_chunk merge_results_def
        two_targets_minus Let_def)

text \<open>
  Claim C6, where the code departs from it. Both targets are pending after phase 1 and
  sixteen items are queued, but the five workers that start in this run are not given
  the same set: the first three receive both targets, the fourth only the one still
  pending, and the fifth the empty set, on which it computes the digest of all
  \<open>16 \<cdot> 256\<^sup>3\<close> candidates of its chunk.
\<close>

theorem workers_receive_different_snapshots:
  "remaining (phase1 (\<lambda>ip. ip) common_ranges (agg_init two_targets))
     = {|''0.0.0.1'', ''16.0.0.1''|}
   \<and> queued (submit_all (phase1 (\<lambda>ip. ip) common_ranges (agg_init two_targets))) = chunks
   \<and> received (pool_run (\<lambda>ip. ip) late_start
        (phase1 (\<lambda>ip. ip) common_ranges (agg_init two_targets)))
     = [((0, 16), {|''0.0.0.1'', ''16.0.0.1''|}),
        ((16, 32), {|''0.0.0.1'', ''16.0.0.1''|}),
        ((32, 48), {|''0.0.0.1'', ''16.0.0.1''|}),
        ((48, 64), {|''16.0.0.1''|}),
        ((64, 80), {||})]
   \<and> {|''16.0.0.1''|} \<noteq> {|''0.0.0.1'', ''16.0.0.1''|}
   \<and> length (hashed (crack_range (\<lambda>ip. ip) 64 80 {||} None)) = 268435456"
proof -
  have "{|ip_str 16 0 0 1|} \<noteq> {|ip_str 0 0 0 1, ip_str 16 0 0 1|}"
    using two_targets_distinct by auto
  then have "remaining (phase1 (\<lambda>ip. ip) common_ranges (agg_init two_targets))
       = {|ip_str 0 0 0 1, ip_str 16 0 0 1|}
     \<and> queued (submit_all (phase1 (\<lambda>ip. ip) common_ranges (agg_init two_targets))) = chunks
     \<and> received (pool_run (\<lambda>ip. ip) late_start
          (phase1 (\<lambda>ip. ip) common_ranges (agg_init two_targets)))
       = [((0, 16), {|ip_str 0 0 0 1, ip_str 16 0 0 1|}),
          ((16, 32), {|ip_str 0 0 0 1, ip_str 16 0 0 1|}),
          ((32, 48), {|ip_str 0 0 0 1, ip_str 16 0 0 1|}),
          ((48, 64), {|ip_str 16 0 0 1|}),
          ((64, 80), {||})]
     \<and> {|ip_str 16 0 0 1|} \<noteq> {|ip_str 0 0 0 1, ip_str 16 0 0 1|}
     \<and> length (hashed (crack_range (\<lambda>ip. ip) 64 80 {||} None)) = 268435456"
    by (simp add: two_targets_phase1 late_start_received crack_range_empty_targets
          length_candidates submit_all_def)
       (simp add: agg_init_def two_targets_ip)
  then show ?thesis
    unfolding ip_str_0_0_0_1 ip_str_16_0_0_1 .
qed

end
